theory Spec2Isabelle
  imports Main
begin

section \<open>Dekatrian and Gregorian date conversion (date_conversion.py)\<close>

text \<open>
  The module works on Python integers, which are unbounded: they are \<open>int\<close> here.
  A date is a tuple \<open>(day, month, year)\<close>, as the functions return it.  Python's \<open>%\<close>
  takes the sign of the divisor, as \<open>mod\<close> on \<open>int\<close> does.  Every raise the module can
  reach is a constructor of \<open>error\<close>.
\<close>

datatype error = IndexError | UnboundLocalError | ZeroDivisionError | OverflowError

type_synonym date = "int \<times> int \<times> int"

subsection \<open>The leap-year predicate of the standard library\<close>

text \<open>
  \<^verbatim>\<open>calendar.isleap(year)\<close> is
  \<^verbatim>\<open>year % 4 == 0 and (year % 100 != 0 or year % 400 == 0)\<close>.
  The module adds the resulting \<open>bool\<close> to integers, where \<open>True\<close> counts as 1 and
  \<open>False\<close> as 0: that number is \<open>leap\<close>.
\<close>

definition isleap :: "int \<Rightarrow> bool" where
  "isleap year = (year mod 4 = 0 \<and> (year mod 100 \<noteq> 0 \<or> year mod 400 = 0))"

definition leap :: "int \<Rightarrow> int" where
  "leap year = (if isleap year then 1 else 0)"

subsection \<open>Week days\<close>

definition week_day_on_first_auroran :: "int \<Rightarrow> int" where
  "week_day_on_first_auroran dek_year =
     ((1 + 5 * (dek_year mod 4) + 4 * (dek_year mod 100) + 6 * (dek_year mod 400)) mod 7) + 1"

definition dekatrian_week :: "int \<Rightarrow> int \<Rightarrow> int" where
  "dekatrian_week dek_day dek_month =
     (if dek_month = 0 then 0 else ((dek_day - 1) mod 7) + 1)"

definition dek_to_week :: "int \<Rightarrow> int \<Rightarrow> int \<Rightarrow> int" where
  "dek_to_week dek_day dek_month dek_year =
     (let week_day =
            ((week_day_on_first_auroran dek_year + dekatrian_week dek_day dek_month - 2) mod 7) + 1
      in if dek_month = 0 then ((week_day - 3 + dek_day) mod 7) + 1 else week_day)"

subsection \<open>Day of the year\<close>

definition year_day_on_deka_date :: "int \<Rightarrow> int \<Rightarrow> int \<Rightarrow> int" where
  "year_day_on_deka_date dek_day dek_month dek_year =
     (if dek_month = 0 then dek_day
      else leap dek_year + 1 + (dek_month - 1) * 28 + dek_day)"

text \<open>The tuple of month lengths that two functions of the module build, each for itself.\<close>

definition gregorian_calendar_months :: "int \<Rightarrow> int list" where
  "gregorian_calendar_months year =
     [31, 28 + leap year, 31, 30, 31, 30, 31, 31, 30, 31, 30, 31]"

text \<open>
  The \<^verbatim>\<open>while i < (month - 1)\<close> loop of \<open>year_day_on_greg_date\<close>.  The index \<open>i\<close>
  starts at 0 and only grows, so it is a \<open>nat\<close>; reading the tuple at an index past
  its end raises IndexError.
\<close>

function sum_months :: "int list \<Rightarrow> int \<Rightarrow> nat \<Rightarrow> int \<Rightarrow> error + int" where
  "sum_months months month i days =
     (if int i < month - 1
      then (if i < length months then sum_months months month (Suc i) (days + months ! i)
            else Inl IndexError)
      else Inr days)"
  by pat_completeness auto
termination
  by (relation "measure (\<lambda>(months, month, i, days). length months - i)") auto

declare sum_months.simps [simp del]

definition year_day_on_greg_date :: "int \<Rightarrow> int \<Rightarrow> int \<Rightarrow> error + int" where
  "year_day_on_greg_date day month year =
     (case sum_months (gregorian_calendar_months year) month 0 0 of
        Inl e \<Rightarrow> Inl e
      | Inr days \<Rightarrow> Inr (days + day))"

subsection \<open>Dekatrian to Gregorian\<close>

text \<open>\<^verbatim>\<open>enumerate(xs, start=k)\<close>.\<close>

fun enumerate_from :: "int \<Rightarrow> 'a list \<Rightarrow> (int \<times> 'a) list" where
  "enumerate_from k [] = []"
| "enumerate_from k (x # xs) = (k, x) # enumerate_from (k + 1) xs"

text \<open>
  The \<^verbatim>\<open>for month, days in enumerate(...)\<close> loop of \<open>dek_to_greg\<close>.  The state is
  the pair of \<open>year_day\<close> and the loop variable \<open>month\<close>, which is unbound (\<open>None\<close>)
  until the first iteration binds it and keeps its last value when the loop ends,
  by \<^verbatim>\<open>break\<close> or by exhausting the tuple.
\<close>

fun walk_months :: "(int \<times> int) list \<Rightarrow> int \<Rightarrow> int option \<Rightarrow> int \<times> int option" where
  "walk_months [] year_day month = (year_day, month)"
| "walk_months ((m, days) # rest) year_day month =
     (if year_day > days then walk_months rest (year_day - days) (Some m)
      else (year_day, Some m))"

text \<open>
  Everything in \<open>dek_to_greg\<close> after its first line: the month-length tuple, the loop
  and the returned tuple.
\<close>

definition greg_date_of_year_day :: "int \<Rightarrow> int \<Rightarrow> error + date" where
  "greg_date_of_year_day year_day dek_year =
     (case walk_months (enumerate_from 1 (gregorian_calendar_months dek_year)) year_day None of
        (year_day', None) \<Rightarrow> Inl UnboundLocalError
      | (year_day', Some month) \<Rightarrow> Inr (year_day', month, dek_year))"

text \<open>
  The first line of \<open>dek_to_greg\<close> calls \<open>year_day_on_greg_date\<close> on the Dekatrian
  date; \<open>year_day_on_deka_date\<close> is not called anywhere in the conversion.
\<close>

definition dek_to_greg :: "int \<Rightarrow> int \<Rightarrow> int \<Rightarrow> error + date" where
  "dek_to_greg dek_day dek_month dek_year =
     (case year_day_on_greg_date dek_day dek_month dek_year of
        Inl e \<Rightarrow> Inl e
      | Inr year_day \<Rightarrow> greg_date_of_year_day year_day dek_year)"

subsection \<open>The expression \<^verbatim>\<open>int(a / b)\<close>\<close>

text \<open>
  \<open>greg_to_dek\<close> computes the month as \<^verbatim>\<open>int((year_day - 1) / 28) + 1\<close>.
  In Python 3 the operator \<^verbatim>\<open>/\<close> on two integers is true division: the result
  is the IEEE 754 double nearest to the exact quotient (ties to the even mantissa),
  OverflowError when that double would not be finite, ZeroDivisionError when the
  divisor is 0.  \<^verbatim>\<open>int\<close> of a double drops its fractional part.

  A positive double is \<open>m * 2 ^ e\<close> with a 53-bit mantissa \<open>m\<close>.  \<open>float_of_ratio\<close>
  finds the exponent from the bit lengths of the operands and rounds the scaled
  quotient to the nearest integer.  The exponent is not bounded below here: a
  quotient in the subnormal range is far below 1, and \<^verbatim>\<open>int\<close> of it is 0 whatever
  its mantissa.
\<close>

function bit_length :: "int \<Rightarrow> nat" where
  "bit_length n = (if n \<le> 0 then 0 else Suc (bit_length (n div 2)))"
  by pat_completeness auto
termination
  by (relation "measure nat") auto

declare bit_length.simps [simp del]

definition round_half_even :: "int \<Rightarrow> int \<Rightarrow> int" where
  "round_half_even a b =
     (let q = a div b; r = a mod b
      in if 2 * r < b then q
         else if b < 2 * r then q + 1
         else if even q then q else q + 1)"

definition float_of_ratio :: "int \<Rightarrow> int \<Rightarrow> int \<times> int" where
  "float_of_ratio a b =
     (let d = int (bit_length a) - int (bit_length b);
          e = (if b * 2 ^ nat d \<le> a * 2 ^ nat (- d) then d - 52 else d - 53)
      in (round_half_even (a * 2 ^ nat (- e)) (b * 2 ^ nat e), e))"

definition int_truediv :: "int \<Rightarrow> int \<Rightarrow> error + int" where
  "int_truediv a b =
     (if b = 0 then Inl ZeroDivisionError
      else if a = 0 then Inr 0
      else (case float_of_ratio \<bar>a\<bar> \<bar>b\<bar> of (m, e) \<Rightarrow>
              if 2 ^ 1024 * 2 ^ nat (- e) \<le> m * 2 ^ nat e then Inl OverflowError
              else Inr (sgn a * sgn b * (m * 2 ^ nat e div 2 ^ nat (- e)))))"

subsection \<open>Gregorian to Dekatrian\<close>

text \<open>
  In the intercalary branch the returned day is the argument \<open>day\<close>, not the year
  day.  The month is computed before the day, so an error of the division is what
  the call raises.
\<close>

definition greg_to_dek :: "int \<Rightarrow> int \<Rightarrow> int \<Rightarrow> error + date" where
  "greg_to_dek day month year =
     (case year_day_on_greg_date day month year of
        Inl e \<Rightarrow> Inl e
      | Inr year_day \<Rightarrow>
          if year_day > 1 + leap year
          then (let year_day' = year_day - (1 + leap year)
                in case int_truediv (year_day' - 1) 28 of
                     Inl e \<Rightarrow> Inl e
                   | Inr q \<Rightarrow> Inr ((year_day' - 1) mod 28 + 1, q + 1, year))
          else Inr (day, 0, year))"

subsection \<open>The vocabulary of the specification\<close>

text \<open>
  A valid Gregorian date: month 1 to 12, day from 1 to the length of that month in
  that year.  A valid Dekatrian date: month 0 with day 1, or day 2 in a leap year;
  or month 1 to 13 with day 1 to 28.
\<close>

definition valid_greg :: "int \<Rightarrow> int \<Rightarrow> int \<Rightarrow> bool" where
  "valid_greg day month year =
     (1 \<le> month \<and> month \<le> 12 \<and> 1 \<le> day \<and>
      day \<le> gregorian_calendar_months year ! nat (month - 1))"

definition valid_dek :: "int \<Rightarrow> int \<Rightarrow> int \<Rightarrow> bool" where
  "valid_dek day month year =
     (if month = 0 then day = 1 \<or> (day = 2 \<and> isleap year)
      else 1 \<le> month \<and> month \<le> 13 \<and> 1 \<le> day \<and> day \<le> 28)"

text \<open>The components of a returned date; \<open>None\<close> when the call raised.\<close>

definition result_month :: "error + date \<Rightarrow> int option" where
  "result_month r = (case r of Inl e \<Rightarrow> None | Inr (d, m, y) \<Rightarrow> Some m)"

definition result_year :: "error + date \<Rightarrow> int option" where
  "result_year r = (case r of Inl e \<Rightarrow> None | Inr (d, m, y) \<Rightarrow> Some y)"

text \<open>
  The two round trips of the specification: \<^verbatim>\<open>dek_to_greg(*greg_to_dek(d, m, y))\<close>
  and \<^verbatim>\<open>greg_to_dek(*dek_to_greg(d, m, y))\<close>.
\<close>

definition greg_round_trip :: "int \<Rightarrow> int \<Rightarrow> int \<Rightarrow> error + date" where
  "greg_round_trip d m y =
     (case greg_to_dek d m y of Inl e \<Rightarrow> Inl e | Inr (d', m', y') \<Rightarrow> dek_to_greg d' m' y')"

definition dek_round_trip :: "int \<Rightarrow> int \<Rightarrow> int \<Rightarrow> error + date" where
  "dek_round_trip d m y =
     (case dek_to_greg d m y of Inl e \<Rightarrow> Inl e | Inr (d', m', y') \<Rightarrow> greg_to_dek d' m' y')"

text \<open>
  The reference week day of the proleptic Gregorian calendar, by counting days.
  \<open>days_before_year y\<close> is the number of days from January 1st of year 1 to
  January 1st of year \<open>y\<close>: 365 for each year in between and one more for each leap
  year among them.  January 1st of year 1 is a Monday, which is week day 2 when
  Sunday is 1; \<open>ref_week_day y k\<close> is the week day of the \<open>k\<close>-th day of year \<open>y\<close>.
\<close>

definition days_before_year :: "int \<Rightarrow> int" where
  "days_before_year y = 365 * (y - 1) + (y - 1) div 4 - (y - 1) div 100 + (y - 1) div 400"

definition ref_week_day :: "int \<Rightarrow> int \<Rightarrow> int" where
  "ref_week_day y k = (days_before_year y + k) mod 7 + 1"

section \<open>General facts\<close>

subsection \<open>Leap years\<close>

lemma leap_cases: "leap y = 0 \<or> leap y = 1"
  by (simp add: leap_def)

lemma length_gregorian_calendar_months [simp]:
  "length (gregorian_calendar_months y) = 12"
  by (simp add: gregorian_calendar_months_def)

subsection \<open>The reference week day\<close>

lemma div_pred:
  fixes y k :: int
  assumes k: "0 < k"
  shows "(y - 1) div k = y div k - (if y mod k = 0 then 1 else 0)"
proof (cases "y mod k = 0")
  case True
  have "y - 1 = k * (y div k - 1) + (k - 1)"
    using True mult_div_mod_eq [of k y] by (simp add: algebra_simps)
  moreover have "0 \<le> k - 1" "k - 1 < k" using k by simp_all
  ultimately have "(y - 1) div k = y div k - 1"
    by (rule int_div_pos_eq)
  with True show ?thesis by simp
next
  case False
  have "0 \<le> y mod k" "y mod k < k" using k by simp_all
  with False have r: "0 \<le> y mod k - 1" "y mod k - 1 < k" by linarith+
  have "y - 1 = k * (y div k) + (y mod k - 1)"
    using mult_div_mod_eq [of k y] by simp
  from this r have "(y - 1) div k = y div k"
    by (rule int_div_pos_eq)
  with False show ?thesis by simp
qed

lemma leap_by_divisions:
  "leap y = (if 4 dvd y then 1 else 0) - (if 100 dvd y then 1 else 0)
            + (if 400 dvd y then 1 else 0)"
proof -
  have "(4::int) dvd 100" and "(100::int) dvd 400" by simp_all
  then have a: "100 dvd y \<Longrightarrow> 4 dvd y" and b: "400 dvd y \<Longrightarrow> 100 dvd y"
    by (meson dvd_trans)+
  show ?thesis
    using a b by (auto simp: leap_def isleap_def)
qed

lemma days_before_year_Suc: "days_before_year (y + 1) = days_before_year y + 365 + leap y"
  by (simp add: days_before_year_def leap_by_divisions div_pred mod_eq_0_iff_dvd)

lemma wdfa_congruence:
  "week_day_on_first_auroran y = (1 + 365 * y + y div 4 - y div 100 + y div 400) mod 7 + 1"
proof -
  define a b c where "a = y div 4" and "b = y div 100" and "c = y div 400"
  have m: "y mod 4 = y - 4 * a" "y mod 100 = y - 100 * b" "y mod 400 = y - 400 * c"
    unfolding a_def b_def c_def by (rule minus_mult_div_eq_mod [symmetric])+
  define k where "k = 50 * y + 3 * a + 57 * b + 343 * c"
  define A where "A = 1 + 5 * (y mod 4) + 4 * (y mod 100) + 6 * (y mod 400)"
  define B where "B = 1 + 365 * y + a - b + c"
  have "A + 7 * k = B"
    unfolding A_def B_def m k_def by (simp add: algebra_simps)
  then have "B mod 7 = (A + 7 * k) mod 7"
    by (simp only:)
  also have "\<dots> = A mod 7"
    by (simp only: mod_mult_self2)
  finally have "A mod 7 = B mod 7"
    by (simp only:)
  then show ?thesis
    unfolding week_day_on_first_auroran_def A_def B_def a_def b_def c_def
    by (simp only:)
qed


lemma wdfa_next_year: "week_day_on_first_auroran y = ref_week_day (y + 1) 1"
  by (simp add: wdfa_congruence ref_week_day_def days_before_year_def algebra_simps)

lemma wdfa_first_auroran:
  "week_day_on_first_auroran y = ref_week_day y (year_day_on_deka_date 1 1 y)"
proof -
  have "ref_week_day (y + 1) 1 = (days_before_year y + 365 + leap y + 1) mod 7 + 1"
    by (simp add: ref_week_day_def days_before_year_Suc)
  also have "days_before_year y + 365 + leap y + 1 = (days_before_year y + (leap y + 2)) + 7 * 52"
    by simp
  also have "\<dots> mod 7 = (days_before_year y + (leap y + 2)) mod 7"
    by (simp only: mod_mult_self2)
  finally show ?thesis
    by (simp add: wdfa_next_year ref_week_day_def year_day_on_deka_date_def add.commute)
qed

subsection \<open>The division by 28\<close>

lemma bit_length_le: "n < 2 ^ k \<Longrightarrow> bit_length n \<le> k"
proof (induction k arbitrary: n)
  case 0
  then show ?case by (simp add: bit_length.simps)
next
  case (Suc k)
  show ?case
  proof (cases "n \<le> 0")
    case True
    then show ?thesis by (simp add: bit_length.simps)
  next
    case False
    from Suc.prems have "n div 2 < 2 ^ k" by simp
    then have "bit_length (n div 2) \<le> k" by (rule Suc.IH)
    with False show ?thesis by (subst bit_length.simps) simp
  qed
qed

lemma bit_length_28: "bit_length 28 = 5"
  by (simp add: bit_length.simps)

lemma round_half_even_bounds:
  "a div b \<le> round_half_even a b \<and> round_half_even a b \<le> a div b + 1"
  by (simp add: round_half_even_def Let_def)

lemma scaled_quotient_aux:
  fixes a X c P :: int
  assumes "a = 28 * X + c" and "0 \<le> c" and "c \<le> 27 * P" and "32 \<le> P"
  shows "X \<le> a div 28 \<and> a div 28 + 1 < X + P"
  using assms by arith

lemma scaled_quotient:
  fixes n P :: int
  assumes n: "0 \<le> n" and P: "32 \<le> P"
  shows "(n div 28) * P \<le> n * P div 28 \<and> n * P div 28 + 1 < (n div 28 + 1) * P"
proof -
  define q where "q = n div 28"
  define r where "r = n mod 28"
  have nq: "n = 28 * q + r" and r: "0 \<le> r" "r \<le> 27"
    by (simp_all add: q_def r_def)
  have rP: "0 \<le> r * P" "r * P \<le> 27 * P"
    using r P by (simp_all add: mult_right_mono)
  have nP: "n * P = 28 * (q * P) + r * P"
    by (simp add: nq algebra_simps)
  have "q * P \<le> n * P div 28 \<and> n * P div 28 + 1 < q * P + P"
    using nP rP P by (rule scaled_quotient_aux)
  then show ?thesis
    by (simp add: q_def algebra_simps)
qed

text \<open>
  Below \<open>2 ^ 52\<close> the double nearest to \<open>n / 28\<close> still has the integer part of the
  exact quotient: the rounding moves it by less than \<open>1 / 28\<close>.
\<close>

lemma int_truediv_28:
  assumes n: "0 \<le> n" and bound: "n < 2 ^ 52"
  shows "int_truediv n 28 = Inr (n div 28)"
proof (cases "n = 0")
  case True
  then show ?thesis by (simp add: int_truediv_def)
next
  case False
  obtain m e where me: "float_of_ratio \<bar>n\<bar> \<bar>28\<bar> = (m, e)"
    by (cases "float_of_ratio \<bar>n\<bar> \<bar>28\<bar>")
  have bl: "int (bit_length n) \<le> 52"
    using bit_length_le [OF bound] by simp
  from me n have e: "e \<le> - 5"
    using bl by (auto simp: float_of_ratio_def Let_def bit_length_28 split: if_splits)
  define s where "s = nat (- e)"
  define P :: int where "P = 2 ^ s"
  have s: "5 \<le> s" using e by (simp add: s_def)
  have "(2::int) ^ 5 \<le> 2 ^ s" using s by (intro power_increasing) simp_all
  then have P: "32 \<le> P" by (simp add: P_def)
  have ne: "nat e = 0" using e by simp
  from me n have m: "m = round_half_even (n * P) 28"
    using ne by (auto simp: float_of_ratio_def Let_def P_def s_def split: if_splits)
  from scaled_quotient [OF n P] round_half_even_bounds [of "n * P" 28] m
  have lo: "(n div 28) * P \<le> m" and hi: "m < (n div 28 + 1) * P"
    by linarith+
  have "m = P * (n div 28) + (m - (n div 28) * P)"
    by (simp add: algebra_simps)
  moreover have "0 \<le> m - (n div 28) * P" using lo by simp
  moreover have "m - (n div 28) * P < P" using hi by (simp add: algebra_simps)
  ultimately have q: "m div P = n div 28"
    by (rule int_div_pos_eq)
  have "(n div 28 + 1) * P \<le> 2 ^ 1024 * P"
  proof (rule mult_right_mono)
    have "n div 28 + 1 \<le> 2 ^ 52" using n bound by linarith
    also have "\<dots> \<le> (2::int) ^ 1024" by (intro power_increasing) simp_all
    finally show "n div 28 + 1 \<le> 2 ^ 1024" .
    show "0 \<le> P" using P by simp
  qed
  with hi have no: "\<not> 2 ^ 1024 * P \<le> m" by linarith
  from False n me no q show ?thesis
    using ne by (simp add: int_truediv_def P_def s_def)
qed

subsection \<open>The loops\<close>

lemma sum_months_take:
  "month - 1 \<le> int (length months) \<Longrightarrow>
   sum_months months month i days
     = Inr (days + sum_list (take (nat (month - 1) - i) (drop i months)))"
proof (induction months month i days rule: sum_months.induct)
  case (1 months month i days)
  show ?case
  proof (cases "int i < month - 1")
    case True
    with "1.prems" have i: "i < length months" by linarith
    from True have "nat (month - 1) - i = Suc (nat (month - 1) - Suc i)" by linarith
    then have "take (nat (month - 1) - i) (drop i months)
               = months ! i # take (nat (month - 1) - Suc i) (drop (Suc i) months)"
      using i by (simp add: Cons_nth_drop_Suc [symmetric])
    with True i "1.IH" "1.prems" show ?thesis
      by (subst sum_months.simps) simp
  next
    case False
    then have "nat (month - 1) - i = 0" by linarith
    with False show ?thesis
      by (subst sum_months.simps) simp
  qed
qed

lemma sum_months_IndexError:
  "int (length months) < month - 1 \<Longrightarrow> i \<le> length months \<Longrightarrow>
   sum_months months month i days = Inl IndexError"
proof (induction months month i days rule: sum_months.induct)
  case (1 months month i days)
  from "1.prems" have lt: "int i < month - 1" by linarith
  show ?case
  proof (cases "i < length months")
    case True
    with lt "1.IH" "1.prems" show ?thesis
      by (subst sum_months.simps) simp
  next
    case False
    with lt show ?thesis
      by (subst sum_months.simps) simp
  qed
qed

lemma year_day_on_greg_date_Inr:
  "month \<le> 13 \<Longrightarrow>
   year_day_on_greg_date day month year
     = Inr (sum_list (take (nat (month - 1)) (gregorian_calendar_months year)) + day)"
  by (simp add: year_day_on_greg_date_def sum_months_take)

lemma year_day_on_greg_date_IndexError:
  "13 < month \<Longrightarrow> year_day_on_greg_date day month year = Inl IndexError"
  by (simp add: year_day_on_greg_date_def sum_months_IndexError)

lemma walk_months_month:
  "walk_months es year_day month = (year_day', month') \<Longrightarrow>
   (es = [] \<and> month' = month) \<or> (\<exists>m \<in> fst ` set es. month' = Some m)"
proof (induction es arbitrary: year_day month)
  case Nil
  then show ?case by simp
next
  case (Cons e es)
  obtain m days where e: "e = (m, days)" by (cases e)
  show ?case
  proof (cases "year_day > days")
    case True
    with Cons.prems e have "walk_months es (year_day - days) (Some m) = (year_day', month')"
      by simp
    from Cons.IH [OF this] e show ?thesis by auto
  next
    case False
    with Cons.prems e show ?thesis by auto
  qed
qed

lemma greg_date_of_year_day_month:
  "\<exists>day month. greg_date_of_year_day year_day year = Inr (day, month, year)
     \<and> 1 \<le> month \<and> month \<le> 12"
proof -
  let ?es = "enumerate_from 1 (gregorian_calendar_months year)"
  obtain d mo where w: "walk_months ?es year_day None = (d, mo)"
    by (cases "walk_months ?es year_day None")
  from walk_months_month [OF w] obtain m where "m \<in> fst ` set ?es" and mo: "mo = Some m"
    by (auto simp: gregorian_calendar_months_def)
  then have "1 \<le> m \<and> m \<le> 12"
    by (auto simp: gregorian_calendar_months_def)
  with w mo show ?thesis
    by (simp add: greg_date_of_year_day_def)
qed

lemma month_cases:
  fixes month :: int
  assumes "1 \<le> month" and "month \<le> 13"
  shows "month \<in> {1, 2, 3, 4, 5, 6, 7, 8, 9, 10, 11, 12, 13}"
  using assms by (simp add: insert_iff) arith

lemma days_before_month_bounds:
  assumes "month \<le> 13"
  shows "0 \<le> sum_list (take (nat (month - 1)) (gregorian_calendar_months year))
         \<and> sum_list (take (nat (month - 1)) (gregorian_calendar_months year)) \<le> 366"
proof (cases "month \<le> 1")
  case True
  then show ?thesis by simp
next
  case False
  with assms have "month \<in> {1, 2, 3, 4, 5, 6, 7, 8, 9, 10, 11, 12, 13}"
    by (intro month_cases) simp_all
  then show ?thesis
    using leap_cases [of year]
    by (auto simp: gregorian_calendar_months_def)
qed

lemma valid_greg_year_day:
  assumes "valid_greg day month year"
  shows "\<exists>yd. year_day_on_greg_date day month year = Inr yd \<and> 1 \<le> yd
           \<and> yd \<le> 365 + leap year \<and> (yd \<le> 1 + leap year \<longrightarrow> day = yd)"
proof -
  from assms have m: "month \<in> {1, 2, 3, 4, 5, 6, 7, 8, 9, 10, 11, 12, 13}"
    by (intro month_cases) (simp_all add: valid_greg_def)
  from assms have "month \<le> 13" by (simp add: valid_greg_def)
  then have yd: "year_day_on_greg_date day month year
      = Inr (sum_list (take (nat (month - 1)) (gregorian_calendar_months year)) + day)"
    by (rule year_day_on_greg_date_Inr)
  from m assms leap_cases [of year] show ?thesis
    unfolding yd
    by (auto simp: valid_greg_def gregorian_calendar_months_def)
qed

lemma greg_to_dek_of_year_day:
  assumes yd: "year_day_on_greg_date day month year = Inr yd" and bound: "yd < 2 ^ 52"
  shows "greg_to_dek day month year
         = Inr (if yd > 1 + leap year
                then ((yd - (1 + leap year) - 1) mod 28 + 1,
                      (yd - (1 + leap year) - 1) div 28 + 1, year)
                else (day, 0, year))"
proof (cases "yd > 1 + leap year")
  case True
  let ?n = "yd - (1 + leap year) - 1"
  have "0 \<le> ?n" using True by simp
  moreover have "?n < 2 ^ 52"
    using bound leap_cases [of year] by auto
  ultimately have "int_truediv ?n 28 = Inr (?n div 28)"
    by (rule int_truediv_28)
  with True yd show ?thesis
    by (simp add: greg_to_dek_def Let_def)
next
  case False
  with yd show ?thesis by (simp add: greg_to_dek_def)
qed

lemma result_year_greg_to_dek:
  "result_year (greg_to_dek day month year) = Some year
   \<or> result_year (greg_to_dek day month year) = None"
  by (auto simp: greg_to_dek_def result_year_def Let_def split: sum.splits)

subsection \<open>The round trips through \<open>year_day_on_deka_date\<close>\<close>

text \<open>
  \<open>greg_to_dek\<close> and the walk over the month lengths are inverse to each other when the
  Dekatrian date is turned into its year day by \<open>year_day_on_deka_date\<close>, the function
  the module defines for that and \<open>dek_to_greg\<close> does not call.
\<close>

lemma greg_date_of_year_day_valid:
  assumes "valid_greg day month year"
  shows "greg_date_of_year_day
           (sum_list (take (nat (month - 1)) (gregorian_calendar_months year)) + day) year
         = Inr (day, month, year)"
proof -
  from assms have m: "month \<in> {1, 2, 3, 4, 5, 6, 7, 8, 9, 10, 11, 12, 13}"
    by (intro month_cases) (simp_all add: valid_greg_def)
  from leap_cases [of year] show ?thesis
  proof
    assume l: "leap year = 0"
    from m assms show ?thesis
      by (elim insertE emptyE)
        (simp_all add: valid_greg_def gregorian_calendar_months_def greg_date_of_year_day_def l)
  next
    assume l: "leap year = 1"
    from m assms show ?thesis
      by (elim insertE emptyE)
        (simp_all add: valid_greg_def gregorian_calendar_months_def greg_date_of_year_day_def l)
  qed
qed

lemma year_day_on_deka_date_greg_to_dek:
  assumes "valid_greg day month year"
  shows "\<exists>yd dek_day dek_month.
           year_day_on_greg_date day month year = Inr yd
           \<and> greg_to_dek day month year = Inr (dek_day, dek_month, year)
           \<and> year_day_on_deka_date dek_day dek_month year = yd"
proof -
  from valid_greg_year_day [OF assms] obtain yd
    where yd: "year_day_on_greg_date day month year = Inr yd"
      and lo: "1 \<le> yd" and hi: "yd \<le> 365 + leap year"
      and d: "yd \<le> 1 + leap year \<longrightarrow> day = yd"
    by blast
  from hi leap_cases [of year] have "yd < 2 ^ 52" by auto
  note g = greg_to_dek_of_year_day [OF yd this]
  show ?thesis
  proof (cases "yd > 1 + leap year")
    case True
    let ?n = "yd - (1 + leap year) - 1"
    have "0 \<le> ?n div 28" using True by simp
    then have "?n div 28 + 1 \<noteq> 0" by linarith
    moreover have "?n div 28 * 28 + ?n mod 28 = ?n" by simp
    ultimately have "year_day_on_deka_date (?n mod 28 + 1) (?n div 28 + 1) year = yd"
      unfolding year_day_on_deka_date_def by simp
    with True yd g show ?thesis by simp
  next
    case False
    with d have "year_day_on_deka_date day 0 year = yd"
      by (simp add: year_day_on_deka_date_def)
    with False yd g show ?thesis by simp
  qed
qed

lemma greg_round_trip_through_deka_year_day:
  assumes "valid_greg day month year"
  shows "\<exists>dek_day dek_month.
           greg_to_dek day month year = Inr (dek_day, dek_month, year)
           \<and> greg_date_of_year_day (year_day_on_deka_date dek_day dek_month year) year
               = Inr (day, month, year)"
proof -
  from assms have "month \<le> 13" by (simp add: valid_greg_def)
  from year_day_on_greg_date_Inr [OF this, of day year]
    year_day_on_deka_date_greg_to_dek [OF assms] greg_date_of_year_day_valid [OF assms]
  show ?thesis by auto
qed

lemma year_day_month_exists:
  fixes k :: int
  shows "1 \<le> k \<Longrightarrow> k \<le> sum_list xs \<Longrightarrow>
         \<exists>i < length xs. sum_list (take i xs) < k \<and> k \<le> sum_list (take i xs) + xs ! i"
proof (induction xs arbitrary: k)
  case Nil
  then show ?case by simp
next
  case (Cons x xs)
  show ?case
  proof (cases "k \<le> x")
    case True
    with Cons.prems have "sum_list (take 0 (x # xs)) < k \<and> k \<le> sum_list (take 0 (x # xs)) + (x # xs) ! 0"
      by simp
    then show ?thesis by blast
  next
    case False
    with Cons.prems have "1 \<le> k - x" "k - x \<le> sum_list xs" by simp_all
    from Cons.IH [OF this] obtain i
      where "i < length xs" "sum_list (take i xs) < k - x" "k - x \<le> sum_list (take i xs) + xs ! i"
      by blast
    then have "Suc i < length (x # xs) \<and> sum_list (take (Suc i) (x # xs)) < k
               \<and> k \<le> sum_list (take (Suc i) (x # xs)) + (x # xs) ! Suc i"
      by simp
    then show ?thesis by blast
  qed
qed

lemma greg_date_of_year_day_inverse:
  assumes "1 \<le> k" and "k \<le> 365 + leap year"
  shows "\<exists>day month. valid_greg day month year
           \<and> greg_date_of_year_day k year = Inr (day, month, year)
           \<and> year_day_on_greg_date day month year = Inr k"
proof -
  let ?xs = "gregorian_calendar_months year"
  have "sum_list ?xs = 365 + leap year"
    by (simp add: gregorian_calendar_months_def)
  with assms year_day_month_exists [of k ?xs] obtain i
    where i: "i < 12" and lo: "sum_list (take i ?xs) < k"
      and hi: "k \<le> sum_list (take i ?xs) + ?xs ! i"
    by auto
  let ?month = "int i + 1" and ?day = "k - sum_list (take i ?xs)"
  from i lo hi have v: "valid_greg ?day ?month year"
    by (simp add: valid_greg_def)
  from i have "?month \<le> 13" by simp
  from greg_date_of_year_day_valid [OF v] year_day_on_greg_date_Inr [OF this, of ?day year] v
  show ?thesis by auto
qed

lemma dek_round_trip_through_deka_year_day:
  assumes "valid_dek day month year"
  shows "\<exists>greg_day greg_month.
           greg_date_of_year_day (year_day_on_deka_date day month year) year
             = Inr (greg_day, greg_month, year)
           \<and> valid_greg greg_day greg_month year
           \<and> greg_to_dek greg_day greg_month year = Inr (day, month, year)"
proof -
  let ?k = "year_day_on_deka_date day month year"
  have l: "0 \<le> leap year" "leap year \<le> 1" using leap_cases [of year] by auto
  have k: "1 \<le> ?k \<and> ?k \<le> 365 + leap year"
  proof (cases "month = 0")
    case True
    with assms l show ?thesis
      by (auto simp: valid_dek_def year_day_on_deka_date_def leap_def)
  next
    case False
    with assms have "0 \<le> month - 1" "month - 1 \<le> 12" "1 \<le> day" "day \<le> 28"
      by (simp_all add: valid_dek_def)
    with False l show ?thesis
      by (simp add: year_day_on_deka_date_def)
  qed
  from greg_date_of_year_day_inverse [of ?k year] k obtain gd gm
    where v: "valid_greg gd gm year"
      and w: "greg_date_of_year_day ?k year = Inr (gd, gm, year)"
      and y: "year_day_on_greg_date gd gm year = Inr ?k"
    by blast
  from k l have "?k < 2 ^ 52" by simp
  note g = greg_to_dek_of_year_day [OF y this]
  from valid_greg_year_day [OF v] y have d: "?k \<le> 1 + leap year \<longrightarrow> gd = ?k"
    by simp
  have "greg_to_dek gd gm year = Inr (day, month, year)"
  proof (cases "month = 0")
    case True
    with assms l have "?k = day" "day \<le> 1 + leap year"
      by (auto simp: valid_dek_def year_day_on_deka_date_def leap_def)
    with True d g show ?thesis by simp
  next
    case False
    with assms have r: "0 \<le> day - 1" "day - 1 < 28" and m: "1 \<le> month"
      by (simp_all add: valid_dek_def)
    from False have n: "?k - (1 + leap year) - 1 = (month - 1) * 28 + (day - 1)"
      by (simp add: year_day_on_deka_date_def)
    have "0 \<le> (month - 1) * 28" using m by simp
    with r n have gt: "?k > 1 + leap year" by linarith
    have dv: "((month - 1) * 28 + (day - 1)) div 28 = month - 1"
      using r by (intro int_div_pos_eq [of _ _ _ "day - 1"]) simp_all
    have md: "((month - 1) * 28 + (day - 1)) mod 28 = day - 1"
      using r by (intro int_mod_pos_eq [of _ _ "month - 1"]) simp_all
    from gt dv md g n show ?thesis by simp
  qed
  with v w show ?thesis by blast
qed

section \<open>The claims\<close>

text \<open>
  C5.  For every integer year \<open>y\<close>, the year day of the last Dekatrian day, day 28 of
  month 13, is \<open>365 + leap y\<close>, where \<open>leap y\<close> is 1 in a proleptic Gregorian leap year
  and 0 otherwise.
\<close>

theorem C5_last_day_of_year:
  "year_day_on_deka_date 28 13 y = 365 + leap y
   \<and> leap y = (if y mod 4 = 0 \<and> (y mod 100 \<noteq> 0 \<or> y mod 400 = 0) then 1 else 0)"
  by (simp add: year_day_on_deka_date_def leap_def isleap_def)

theorem C5_last_day_of_year_witness:
  "year_day_on_deka_date 28 13 2016 = 366 \<and> year_day_on_deka_date 28 13 2017 = 365"
  using C5_last_day_of_year [of 2016] C5_last_day_of_year [of 2017]
  by simp

text \<open>
  C3, as the specification states it: \<open>week_day_on_first_auroran year\<close> is the week day
  of January 1st of that year.  For 2016 the function returns 1 (Sunday), while
  January 1st, 2016 was a Friday (6).
\<close>

theorem C3_counterexample:
  "week_day_on_first_auroran 2016 = 1 \<and> ref_week_day 2016 1 = 6
   \<and> week_day_on_first_auroran 2016 \<noteq> ref_week_day 2016 1"
  by (simp add: week_day_on_first_auroran_def ref_week_day_def days_before_year_def)

text \<open>
  C3, amended.  For every integer year, \<open>week_day_on_first_auroran year\<close> is the week
  day (1 = Sunday ... 7 = Saturday) of the first Auroran of that year, as the
  function's docstring says: the day whose year day is
  \<open>year_day_on_deka_date 1 1 year = 2 + leap year\<close>, which is January 2nd, or
  January 3rd in a leap year.  That is also the week day of January 1st of the
  following year.
\<close>

theorem C3_week_day_of_first_auroran:
  "week_day_on_first_auroran y = ref_week_day y (year_day_on_deka_date 1 1 y)
   \<and> year_day_on_deka_date 1 1 y = 2 + leap y
   \<and> week_day_on_first_auroran y = ref_week_day (y + 1) 1
   \<and> 1 \<le> week_day_on_first_auroran y \<and> week_day_on_first_auroran y \<le> 7"
proof -
  have "1 \<le> week_day_on_first_auroran y \<and> week_day_on_first_auroran y \<le> 7"
    unfolding week_day_on_first_auroran_def by simp
  moreover have "year_day_on_deka_date 1 1 y = 2 + leap y"
    by (simp add: year_day_on_deka_date_def)
  ultimately show ?thesis
    using wdfa_first_auroran [of y] wdfa_next_year [of y] by simp
qed

theorem C3_week_day_of_first_auroran_witness:
  "week_day_on_first_auroran 2016 = ref_week_day 2016 3
   \<and> week_day_on_first_auroran 2016 = ref_week_day 2017 1"
  using C3_week_day_of_first_auroran [of 2016]
  by (simp add: leap_def isleap_def ref_week_day_def days_before_year_def)

text \<open>
  C6.  For a Dekatrian date with month 1 to 13 and day 1 to 28, \<open>dek_to_week\<close> is
  \<open>(week_day_on_first_auroran year + dekatrian_week day month - 2) mod 7 + 1\<close>.
  For an intercalary date, month 0 and day 1 or 2, \<open>dekatrian_week day 0\<close> is 0 and
  the result is \<open>(base - 3 + day) mod 7 + 1\<close> with \<open>base\<close> from the same formula.
\<close>

theorem C6_dek_to_week:
  "(1 \<le> month \<and> month \<le> 13 \<and> 1 \<le> day \<and> day \<le> 28 \<longrightarrow>
      dek_to_week day month year
        = (week_day_on_first_auroran year + dekatrian_week day month - 2) mod 7 + 1)
   \<and> (day = 1 \<or> day = 2 \<longrightarrow>
      dekatrian_week day 0 = 0
      \<and> dek_to_week day 0 year
        = (((week_day_on_first_auroran year + dekatrian_week day 0 - 2) mod 7 + 1) - 3 + day)
            mod 7 + 1)"
  by (simp add: dek_to_week_def dekatrian_week_def Let_def)

text \<open>
  The three dates of the module's own examples: 28\13\2015 is a Thursday, and the
  two intercalary days of 2016 are a Friday and a Saturday.
\<close>

theorem C6_dek_to_week_witness:
  "dek_to_week 28 13 2015 = 5 \<and> dek_to_week 1 0 2016 = 6 \<and> dek_to_week 2 0 2016 = 7"
  using C6_dek_to_week [of 13 28 2015] C6_dek_to_week [of 0 1 2016] C6_dek_to_week [of 0 2 2016]
  by (simp add: week_day_on_first_auroran_def dekatrian_week_def)

text \<open>
  C10.  For every day and year and every month up to 13 (so for the months 0 to 13
  of the claim), \<open>dek_to_greg\<close> returns a date and raises nothing: the loop over the
  twelve month lengths ends at December at the latest, and the month of the result
  is between 1 and 12 whatever the year day was.
\<close>

theorem C10_dek_to_greg_total:
  "month \<le> 13 \<Longrightarrow>
   \<exists>day' month'. dek_to_greg day month year = Inr (day', month', year)
     \<and> 1 \<le> month' \<and> month' \<le> 12"
  using greg_date_of_year_day_month
  by (simp add: dek_to_greg_def year_day_on_greg_date_Inr)

text \<open>
  Day 5000 of month 13: the year day 5365 is far past the end of the year, and the
  result is in December.
\<close>

theorem C10_dek_to_greg_total_witness:
  "(13::int) \<le> 13 \<and> dek_to_greg 5000 13 2017 = Inr (5000, 12, 2017)"
proof -
  have "dek_to_greg 5000 13 2017 = Inr (5000, 12, 2017)"
    using C10_dek_to_greg_total [of 13 5000 2017]
    by (simp add: dek_to_greg_def year_day_on_greg_date_Inr greg_date_of_year_day_def
        gregorian_calendar_months_def leap_def isleap_def)
  then show ?thesis by simp
qed

text \<open>
  C4.  For every valid Gregorian date, \<open>greg_to_dek\<close> returns month 0 only when the
  year day of the date, as \<open>year_day_on_greg_date\<close> computes it, is at most
  \<open>1 + leap year\<close>; for any larger year day the returned month is at least 1.
\<close>

theorem C4_intercalary_bound:
  "valid_greg day month year \<Longrightarrow>
   \<exists>yd dek_day dek_month.
     year_day_on_greg_date day month year = Inr yd
     \<and> greg_to_dek day month year = Inr (dek_day, dek_month, year)
     \<and> (dek_month = 0 \<longrightarrow> yd \<le> 1 + leap year)
     \<and> (1 + leap year < yd \<longrightarrow> 1 \<le> dek_month)"
proof -
  assume v: "valid_greg day month year"
  from valid_greg_year_day [OF v] obtain yd
    where yd: "year_day_on_greg_date day month year = Inr yd"
      and lo: "1 \<le> yd" and hi: "yd \<le> 365 + leap year"
    by blast
  from hi leap_cases [of year] have "yd < 2 ^ 52" by auto
  note g = greg_to_dek_of_year_day [OF yd this]
  show ?thesis
  proof (cases "yd > 1 + leap year")
    case True
    then have "0 \<le> (yd - (1 + leap year) - 1) div 28" by simp
    with True yd g show ?thesis by simp
  next
    case False
    with yd g show ?thesis by simp
  qed
qed

text \<open>
  January 2nd, 2016 is the second intercalary day of a leap year; January 3rd is
  the first day of month 1.
\<close>

theorem C4_intercalary_bound_witness:
  "valid_greg 2 1 2016 \<and> greg_to_dek 2 1 2016 = Inr (2, 0, 2016)
   \<and> valid_greg 3 1 2016 \<and> greg_to_dek 3 1 2016 = Inr (1, 1, 2016)"
proof -
  have a: "valid_greg 2 1 2016" and b: "valid_greg 3 1 2016"
    by (simp_all add: valid_greg_def gregorian_calendar_months_def)
  have y: "year_day_on_greg_date 2 1 2016 = Inr 2" "year_day_on_greg_date 3 1 2016 = Inr 3"
    by (simp_all add: year_day_on_greg_date_Inr)
  have l: "leap 2016 = 1" by (simp add: leap_def isleap_def)
  from C4_intercalary_bound [OF a] C4_intercalary_bound [OF b] a b show ?thesis
    by (simp add: y l greg_to_dek_def Let_def int_truediv_def)
qed

text \<open>
  C7, as the specification states it: the month of \<open>greg_to_dek 3 1 2016\<close> is 0.  The
  year day 3 is above \<open>1 + leap 2016 = 2\<close>, so the date is not intercalary.
\<close>

theorem C7_counterexample:
  "result_month (greg_to_dek 3 1 2016) \<noteq> Some 0"
  by (simp add: result_month_def greg_to_dek_def year_day_on_greg_date_Inr leap_def isleap_def
      Let_def int_truediv_def)

text \<open>
  C7, amended.  \<open>greg_to_dek 3 1 2016\<close> returns \<open>(1, 1, 2016)\<close>, the first day of month
  1: its month component is 1.
\<close>

theorem C7_greg_to_dek_example:
  "greg_to_dek 3 1 2016 = Inr (1, 1, 2016) \<and> result_month (greg_to_dek 3 1 2016) = Some 1"
  by (simp add: result_month_def greg_to_dek_def year_day_on_greg_date_Inr leap_def isleap_def
      Let_def int_truediv_def)

text \<open>
  C9.  For every valid Gregorian date, \<open>greg_to_dek\<close> returns a structurally valid
  Dekatrian date: month 0 with day 1, or day 2 in a leap year; or a month from 1 to
  13 with a day from 1 to 28.
\<close>

theorem C9_greg_to_dek_valid:
  "valid_greg day month year \<Longrightarrow>
   \<exists>dek_day dek_month.
     greg_to_dek day month year = Inr (dek_day, dek_month, year)
     \<and> valid_dek dek_day dek_month year"
proof -
  assume v: "valid_greg day month year"
  from valid_greg_year_day [OF v] obtain yd
    where yd: "year_day_on_greg_date day month year = Inr yd"
      and lo: "1 \<le> yd" and hi: "yd \<le> 365 + leap year"
      and d: "yd \<le> 1 + leap year \<longrightarrow> day = yd"
    by blast
  from hi leap_cases [of year] have "yd < 2 ^ 52" by auto
  note g = greg_to_dek_of_year_day [OF yd this]
  show ?thesis
  proof (cases "yd > 1 + leap year")
    case True
    let ?n = "yd - (1 + leap year) - 1"
    from True hi have n: "0 \<le> ?n" "?n \<le> 363" by simp_all
    then have "0 \<le> ?n div 28" "?n div 28 \<le> 12" by linarith+
    moreover have "0 \<le> ?n mod 28" "?n mod 28 < 28" by simp_all
    ultimately have "valid_dek (?n mod 28 + 1) (?n div 28 + 1) year"
      by (simp add: valid_dek_def)
    with True g show ?thesis by simp
  next
    case False
    with d lo have "day = yd" "1 \<le> day" "day \<le> 1 + leap year" by simp_all
    then have "valid_dek day 0 year"
      by (cases "isleap year") (auto simp: valid_dek_def leap_def)
    with False g show ?thesis by simp
  qed
qed

text \<open>December 31st of a leap year is the last day of month 13.\<close>

theorem C9_greg_to_dek_valid_witness:
  "valid_greg 31 12 2016 \<and> greg_to_dek 31 12 2016 = Inr (28, 13, 2016)
   \<and> valid_dek 28 13 2016"
proof -
  have a: "valid_greg 31 12 2016"
    by (simp add: valid_greg_def gregorian_calendar_months_def)
  have y: "year_day_on_greg_date 31 12 2016 = Inr 366"
    by (simp add: year_day_on_greg_date_Inr gregorian_calendar_months_def leap_def isleap_def)
  have "greg_to_dek 31 12 2016 = Inr (28, 13, 2016)"
    using greg_to_dek_of_year_day [OF y] by (simp add: leap_def isleap_def)
  with C9_greg_to_dek_valid [OF a] a show ?thesis
    by simp
qed

text \<open>
  C8.  For every input, the year of the tuple that \<open>dek_to_greg\<close> returns and the year
  of the tuple that \<open>greg_to_dek\<close> returns is the input year.  \<open>result_year\<close> is \<open>None\<close>
  when the call raises and returns no tuple: \<open>dek_to_greg\<close> returns exactly for the
  months up to 13, \<open>greg_to_dek\<close> returns for these months at least for every day below
  \<open>2 ^ 51\<close>, and both raise IndexError for a month above 13.
\<close>

theorem C8_year_unchanged:
  "result_year (dek_to_greg day month year) = (if month \<le> 13 then Some year else None)
   \<and> (result_year (greg_to_dek day month year) = Some year
        \<or> result_year (greg_to_dek day month year) = None)
   \<and> (month \<le> 13 \<and> day < 2 ^ 51 \<longrightarrow> result_year (greg_to_dek day month year) = Some year)
   \<and> (13 < month \<longrightarrow> greg_to_dek day month year = Inl IndexError)"
proof -
  have a: "result_year (dek_to_greg day month year) = (if month \<le> 13 then Some year else None)"
  proof (cases "month \<le> 13")
    case True
    from greg_date_of_year_day_month obtain d m
      where "greg_date_of_year_day
               (sum_list (take (nat (month - 1)) (gregorian_calendar_months year)) + day) year
             = Inr (d, m, year)"
      by blast
    with True show ?thesis
      by (simp add: dek_to_greg_def year_day_on_greg_date_Inr result_year_def)
  next
    case False
    then show ?thesis
      by (simp add: dek_to_greg_def year_day_on_greg_date_IndexError result_year_def)
  qed
  have c: "result_year (greg_to_dek day month year) = Some year"
    if m: "month \<le> 13" and d: "day < 2 ^ 51"
  proof -
    let ?yd = "sum_list (take (nat (month - 1)) (gregorian_calendar_months year)) + day"
    have yd: "year_day_on_greg_date day month year = Inr ?yd"
      using m by (rule year_day_on_greg_date_Inr)
    have "?yd < 2 ^ 52"
      using days_before_month_bounds [OF m, of year] d by simp
    from greg_to_dek_of_year_day [OF yd this] show ?thesis
      by (simp add: result_year_def)
  qed
  have e: "greg_to_dek day month year = Inl IndexError" if "13 < month"
    using that by (simp add: greg_to_dek_def year_day_on_greg_date_IndexError)
  from a c e result_year_greg_to_dek [of day month year] show ?thesis
    by blast
qed

text \<open>The date of the module's example, 10\10\2017, through both functions.\<close>

theorem C8_year_unchanged_witness:
  "result_year (dek_to_greg 10 10 2017) = Some 2017
   \<and> result_year (greg_to_dek 10 10 2017) = Some 2017"
  using C8_year_unchanged [of 10 10 2017]
  by simp

text \<open>
  C1.  The round-trip law fails on the code in both directions.  The Gregorian date
  January 2nd, 2017 becomes the Dekatrian date 1\1\2017, which \<open>dek_to_greg\<close> returns
  unchanged instead of mapping it back to January 2nd; the Dekatrian date 1\1\2017
  comes back from the other round trip as the intercalary day 1\0\2017.  With the
  year day of the Dekatrian date taken by \<open>year_day_on_deka_date\<close> both round trips
  hold on every valid date (\<open>greg_round_trip_through_deka_year_day\<close>,
  \<open>dek_round_trip_through_deka_year_day\<close>).
\<close>

theorem C1_round_trip_fails:
  "valid_greg 2 1 2017 \<and> greg_to_dek 2 1 2017 = Inr (1, 1, 2017)
   \<and> greg_round_trip 2 1 2017 = Inr (1, 1, 2017)
   \<and> valid_dek 1 1 2017 \<and> dek_to_greg 1 1 2017 = Inr (1, 1, 2017)
   \<and> dek_round_trip 1 1 2017 = Inr (1, 0, 2017)"
proof -
  have l: "leap 2017 = 0" by (simp add: leap_def isleap_def)
  have y: "year_day_on_greg_date 2 1 2017 = Inr 2" "year_day_on_greg_date 1 1 2017 = Inr 1"
    by (simp_all add: year_day_on_greg_date_Inr)
  have g: "greg_to_dek 2 1 2017 = Inr (1, 1, 2017)" "greg_to_dek 1 1 2017 = Inr (1, 0, 2017)"
    by (simp_all add: greg_to_dek_def y l Let_def int_truediv_def)
  have d: "dek_to_greg 1 1 2017 = Inr (1, 1, 2017)"
    by (simp add: dek_to_greg_def y greg_date_of_year_day_def gregorian_calendar_months_def)
  show ?thesis
    by (simp add: greg_round_trip_def dek_round_trip_def g d valid_greg_def valid_dek_def
        gregorian_calendar_months_def)
qed

text \<open>
  C2.  On the Dekatrian date 10\10\2017 the code returns \<open>(10, 10, 2017)\<close>, the year
  day being taken by \<open>year_day_on_greg_date\<close>.  The composition of the claim goes
  through \<open>year_day_on_deka_date\<close>, which gives year day 263, and the walk over the
  Gregorian month lengths then gives September 20th.
\<close>

theorem C2_dek_to_greg_ignores_deka_year_day:
  "valid_dek 10 10 2017
   \<and> dek_to_greg 10 10 2017 = Inr (10, 10, 2017)
   \<and> year_day_on_deka_date 10 10 2017 = 263
   \<and> greg_date_of_year_day (year_day_on_deka_date 10 10 2017) 2017 = Inr (20, 9, 2017)"
proof -
  have l: "leap 2017 = 0" by (simp add: leap_def isleap_def)
  have y: "year_day_on_greg_date 10 10 2017 = Inr 283"
    by (simp add: year_day_on_greg_date_Inr gregorian_calendar_months_def l)
  have d: "dek_to_greg 10 10 2017 = Inr (10, 10, 2017)"
    by (simp add: dek_to_greg_def y greg_date_of_year_day_def gregorian_calendar_months_def l)
  have o: "year_day_on_deka_date 10 10 2017 = 263"
    by (simp add: year_day_on_deka_date_def l)
  have "greg_date_of_year_day 263 2017 = Inr (20, 9, 2017)"
    by (simp add: greg_date_of_year_day_def gregorian_calendar_months_def l)
  with d o show ?thesis
    by (simp add: valid_dek_def)
qed

end
